theory Spec2Isabelle
  imports Complex_Main "HOL-Library.Sublist"
begin

section \<open>Strings\<close>

text \<open>
  A Python \<open>str\<close> is modelled as a \<open>string\<close>, one \<open>char\<close> per code point, which covers the
  code points below 256. On that range \<open>str.lower()\<close> maps \<open>A..Z\<close> and the capital letters
  U+00C0..U+00DE (the multiplication sign U+00D7 apart) to the code point 32 above, and leaves
  every other code point alone.
\<close>

definition lower_char :: "char \<Rightarrow> char" where
  "lower_char c = (let n = (of_char c :: nat) in
     if (65 \<le> n \<and> n \<le> 90) \<or> (192 \<le> n \<and> n \<le> 222 \<and> n \<noteq> 215)
     then char_of (n + 32) else c)"

definition lower :: "string \<Rightarrow> string" where
  "lower s = map lower_char s"

text \<open>\<open>s.startswith(k)\<close> and the substring test \<open>k in s\<close>.\<close>

fun startswith :: "string \<Rightarrow> string \<Rightarrow> bool" where
  "startswith s [] = True"
| "startswith [] (k # ks) = False"
| "startswith (c # s) (k # ks) = (c = k \<and> startswith s ks)"

fun contains :: "string \<Rightarrow> string \<Rightarrow> bool" where
  "contains k [] = (k = [])"
| "contains k (c # s) = (startswith (c # s) k \<or> contains k s)"



text \<open>\<open>s.split(d)\<close> for a one-character separator: never an empty list.\<close>

fun split_on :: "char \<Rightarrow> string \<Rightarrow> string list" where
  "split_on d [] = [[]]"
| "split_on d (c # cs) =
     (if c = d then [] # split_on d cs
      else (case split_on d cs of
              p # ps \<Rightarrow> (c # p) # ps
            | [] \<Rightarrow> [[c]]))"

section \<open>Configuration\<close>

definition ROLE_KEYWORDS :: "string list" where
  "ROLE_KEYWORDS = [
     ''Senior Sales Strategy'',
     ''Sales Strategy'',
     ''Sales Operations'',
     ''Global Sales Operations'',
     ''Revenue Operations'',
     ''RevOps'',
     ''Sales Intelligence'',
     ''Sales Insights'',
     ''Sales Insights & Analytics'',
     ''Sales Enablement'',
     ''Sales Planning & Operations'',
     ''Sales Transformation'',
     ''Go-to-Market Strategy'',
     ''GTM Strategy'',
     ''Sales Excellence'',
     ''Sales Analytics'',
     ''Market Intelligence'']"

text \<open>The literal list of the second loop of \<open>heuristic_score\<close>.\<close>

definition BONUS_TERMS :: "string list" where
  "BONUS_TERMS = [''revops'', ''revenue operations'', ''strategy'', ''enablement'',
     ''analytics'', ''intelligence'', ''insights'', ''market intelligence'', ''gtm'']"

definition RATE_LIMIT_PER_HOST :: real where
  "RATE_LIMIT_PER_HOST = 1"

section \<open>Data model\<close>

text \<open>
  \<open>match_score\<close> is a float in the source. Every value it takes is an integer of magnitude
  at most 390, which binary floating point represents and adds exactly, so it is an \<open>int\<close> here.
\<close>

record JobPosting =
  title :: string
  company :: string
  location :: string
  url :: string
  source :: string
  posted_at :: "string option"
  captured_at :: string
  match_score :: int

text \<open>
  The class body runs once, when the module is loaded: the default of \<open>captured_at\<close> is the
  value \<open>dt.datetime.utcnow().isoformat()\<close> had at that moment, kept in the class.
  \<open>load_module\<close> takes the reading of the clock at load time and yields that stored default.
\<close>

record module_state =
  captured_at_default :: string

definition load_module :: "string \<Rightarrow> module_state" where
  "load_module utcnow_iso = \<lparr>captured_at_default = utcnow_iso\<rparr>"

text \<open>
  The generated \<open>__init__\<close>. Its second argument is the reading of the clock at the time of
  the call, which the constructor has no access to: a field left out takes the stored default.
\<close>

definition JobPosting_init ::
  "module_state \<Rightarrow> string \<Rightarrow> string \<Rightarrow> string \<Rightarrow> string \<Rightarrow> string \<Rightarrow> string
     \<Rightarrow> string option \<Rightarrow> string option \<Rightarrow> JobPosting" where
  "JobPosting_init m utcnow_iso t c l u s posted captured =
     \<lparr>title = t, company = c, location = l, url = u, source = s, posted_at = posted,
      captured_at = (case captured of None \<Rightarrow> captured_at_default m | Some v \<Rightarrow> v),
      match_score = 0\<rparr>"

section \<open>Scoring\<close>

fun keyword_loop :: "string list \<Rightarrow> string \<Rightarrow> int \<Rightarrow> int" where
  "keyword_loop [] title_l score = score"
| "keyword_loop (k # ks) title_l score =
     keyword_loop ks title_l (if contains (lower k) title_l then score + 20 else score)"

fun bonus_loop :: "string list \<Rightarrow> string \<Rightarrow> int \<Rightarrow> int" where
  "bonus_loop [] title_l score = score"
| "bonus_loop (bonus # bs) title_l score =
     bonus_loop bs title_l (if contains bonus title_l then score + 5 else score)"

text \<open>The value of \<open>score\<close> when \<open>heuristic_score\<close> reaches its \<open>return\<close>.\<close>

definition raw_score :: "JobPosting \<Rightarrow> int" where
  "raw_score job =
     (let score = 0;
          title_l = lower (title job);
          score = keyword_loop ROLE_KEYWORDS title_l score;
          score = bonus_loop BONUS_TERMS title_l score
      in if source job = ''greenhouse'' \<or> source job = ''lever'' then score + 5 else score)"

definition heuristic_score :: "JobPosting \<Rightarrow> int" where
  "heuristic_score job = min (raw_score job) 100"

section \<open>Board URL templates and the company derived from a URL\<close>

datatype error = ValueError | AttributeError | TransportError

text \<open>
  A literal of a pattern compiled with \<open>re.I\<close>, matched at the start of \<open>s\<close>: the rest of
  \<open>s\<close> after it. The literals below are lower-case ASCII, and among the code points below 256
  a character matches such a letter exactly when \<open>lower_char\<close> maps it to that letter.
\<close>

definition ci_strip :: "string \<Rightarrow> string \<Rightarrow> string option" where
  "ci_strip pat s =
     (if length pat \<le> length s \<and> lower (take (length pat) s) = pat
      then Some (drop (length pat) s) else None)"

text \<open>
  \<open>://host/([^/?#]+)/?\<close> after the scheme: group 1 is the longest run of characters other than
  \<open>/\<close>, \<open>?\<close> and \<open>#\<close>, and must not be empty; the trailing \<open>/?\<close> never fails.
\<close>

definition slug_after :: "string \<Rightarrow> string \<Rightarrow> string option" where
  "slug_after host r =
     (case ci_strip (''://'' @ host @ ''/'') r of
        None \<Rightarrow> None
      | Some r' \<Rightarrow>
          (let g = takeWhile (\<lambda>c. c \<notin> set ''/?#'') r'
           in if g = [] then None else Some g))"

text \<open>
  \<open>re.match\<close> of \<open>https?://host/([^/?#]+)/?\<close>: the greedy \<open>s?\<close> takes an \<open>s\<close> when there is
  one, and the matcher retries without it when the rest then fails. The result is group 1.
\<close>

definition board_re_match :: "string \<Rightarrow> string \<Rightarrow> string option" where
  "board_re_match host u =
     (case ci_strip ''http'' u of
        None \<Rightarrow> None
      | Some r \<Rightarrow>
          (case r of
             [] \<Rightarrow> slug_after host r
           | c # cs \<Rightarrow>
               if lower_char c = CHR ''s''
               then (case slug_after host cs of
                       Some g \<Rightarrow> Some g
                     | None \<Rightarrow> slug_after host r)
               else slug_after host r))"

definition GH_RE_match :: "string \<Rightarrow> string option" where
  "GH_RE_match u = board_re_match ''boards.greenhouse.io'' u"

definition LEVER_RE_match :: "string \<Rightarrow> string option" where
  "LEVER_RE_match u = board_re_match ''jobs.lever.co'' u"

text \<open>
  \<open>urlparse(url).netloc\<close> belongs to the standard library, not to this program: it is the
  parameter \<open>netloc\<close> of everything that calls it, \<open>Inl\<close> when \<open>urlparse\<close> raises.
\<close>

type_synonym netloc_fn = "string \<Rightarrow> error + string"

definition normalize_company_from_url :: "netloc_fn \<Rightarrow> string \<Rightarrow> string" where
  "normalize_company_from_url netloc u =
     (case GH_RE_match u of
        Some g \<Rightarrow> g
      | None \<Rightarrow>
          (case LEVER_RE_match u of
             Some g \<Rightarrow> g
           | None \<Rightarrow>
               (case netloc u of
                  Inl e \<Rightarrow> []
                | Inr host \<Rightarrow>
                    (let parts = split_on (CHR ''.'') host
                     in if 2 \<le> length parts then parts ! (length parts - 2) else []))))"

text \<open>\<open>p.company or normalize_company_from_url(p.url)\<close>\<close>

definition company_or_url :: "netloc_fn \<Rightarrow> JobPosting \<Rightarrow> string" where
  "company_or_url netloc p =
     (if company p \<noteq> [] then company p else normalize_company_from_url netloc (url p))"

text \<open>
  The part of \<open>urllib.parse.urlsplit\<close> that yields \<open>netloc\<close>, for URLs free of white space and
  control characters: a scheme (a letter, then letters, digits, \<open>+\<close>, \<open>-\<close>, \<open>.\<close>) up to the first
  colon is cut off; after \<open>//\<close> the authority runs to the first \<open>/\<close>, \<open>?\<close> or \<open>#\<close>; an authority
  with one square bracket and not the other raises \<open>ValueError\<close>. It instantiates \<open>netloc\<close>
  at concrete URLs only.
\<close>

definition is_alpha :: "char \<Rightarrow> bool" where
  "is_alpha c = (let n = (of_char c :: nat) in (65 \<le> n \<and> n \<le> 90) \<or> (97 \<le> n \<and> n \<le> 122))"

definition is_scheme_char :: "char \<Rightarrow> bool" where
  "is_scheme_char c = (let n = (of_char c :: nat) in
     is_alpha c \<or> (48 \<le> n \<and> n \<le> 57) \<or> c = CHR ''+'' \<or> c = CHR ''-'' \<or> c = CHR ''.'')"

definition urlsplit_netloc :: netloc_fn where
  "urlsplit_netloc u =
     (let pre = takeWhile (\<lambda>c. c \<noteq> CHR '':'') u;
          rest = (if length pre < length u \<and> pre \<noteq> [] \<and> is_alpha (hd pre)
                     \<and> list_all is_scheme_char pre
                  then drop (length pre + 1) u else u)
      in if take 2 rest = ''//''
         then (let nl = takeWhile (\<lambda>c. c \<notin> set ''/?#'') (drop 2 rest)
               in if (CHR ''['' \<in> set nl) \<noteq> (CHR '']'' \<in> set nl)
                  then Inl ValueError else Inr nl)
         else Inr [])"

section \<open>Deduplication\<close>

definition dedupe_key :: "netloc_fn \<Rightarrow> JobPosting \<Rightarrow> string \<times> string \<times> string" where
  "dedupe_key netloc p =
     (lower (title p), lower (company_or_url netloc p), lower (location p))"

fun dedupe_loop ::
  "netloc_fn \<Rightarrow> JobPosting list \<Rightarrow> (string \<times> string \<times> string) set \<Rightarrow> JobPosting list
     \<Rightarrow> JobPosting list" where
  "dedupe_loop netloc [] seen unique = unique"
| "dedupe_loop netloc (p # ps) seen unique =
     (let key = dedupe_key netloc p
      in if key \<notin> seen
         then dedupe_loop netloc ps (insert key seen) (unique @ [p])
         else dedupe_loop netloc ps seen unique)"

definition dedupe :: "netloc_fn \<Rightarrow> JobPosting list \<Rightarrow> JobPosting list" where
  "dedupe netloc posts = dedupe_loop netloc posts {} []"

section \<open>Persistence\<close>

text \<open>
  The table \<open>jobs\<close>, its rows in the order of insertion, each row the eight columns
  \<open>upsert_jobs\<close> writes (the key \<open>id\<close> that SQLite assigns is left out). The column \<open>url\<close>
  is \<open>UNIQUE\<close> under the binary collation: \<open>INSERT OR IGNORE\<close> adds nothing when a row with the
  same \<open>url\<close> is there. The result is \<open>cur.rowcount\<close> and the table.
\<close>

type_synonym jobs_table = "JobPosting list"

definition insert_or_ignore :: "JobPosting \<Rightarrow> jobs_table \<Rightarrow> nat \<times> jobs_table" where
  "insert_or_ignore row tbl =
     (if url row \<in> set (map url tbl) then (0, tbl) else (1, tbl @ [row]))"

text \<open>
  The loop of \<open>upsert_jobs\<close>. \<open>raises p\<close> says that \<open>cur.execute\<close> raises on the values of
  \<open>p\<close> (a value SQLite cannot bind): the handler goes on to the next posting.
\<close>

fun upsert_loop ::
  "(JobPosting \<Rightarrow> bool) \<Rightarrow> netloc_fn \<Rightarrow> JobPosting list \<Rightarrow> jobs_table \<Rightarrow> nat
     \<Rightarrow> nat \<times> jobs_table" where
  "upsert_loop raises netloc [] tbl inserted = (inserted, tbl)"
| "upsert_loop raises netloc (p # ps) tbl inserted =
     (if raises p then upsert_loop raises netloc ps tbl inserted
      else (case insert_or_ignore (p\<lparr>company := company_or_url netloc p\<rparr>) tbl of
              (rowcount, tbl') \<Rightarrow>
                upsert_loop raises netloc ps tbl'
                  (if rowcount \<noteq> 0 then inserted + 1 else inserted)))"

definition upsert_jobs ::
  "(JobPosting \<Rightarrow> bool) \<Rightarrow> netloc_fn \<Rightarrow> JobPosting list \<Rightarrow> jobs_table \<Rightarrow> nat \<times> jobs_table" where
  "upsert_jobs raises netloc posts tbl = upsert_loop raises netloc posts tbl 0"

section \<open>The pipeline\<close>

text \<open>\<open>any(k.lower() in p.title.lower() for k in ROLE_KEYWORDS)\<close>\<close>

definition matches_role :: "string \<Rightarrow> bool" where
  "matches_role t = list_ex (\<lambda>k. contains (lower k) (lower t)) ROLE_KEYWORDS"

fun filter_loop :: "netloc_fn \<Rightarrow> JobPosting list \<Rightarrow> JobPosting list \<Rightarrow> JobPosting list" where
  "filter_loop netloc [] filtered = filtered"
| "filter_loop netloc (p # ps) filtered =
     (if matches_role (title p)
      then (let p1 = p\<lparr>company := company_or_url netloc p\<rparr>;
                p2 = p1\<lparr>match_score := heuristic_score p1\<rparr>
            in filter_loop netloc ps (filtered @ [p2]))
      else filter_loop netloc ps filtered)"

text \<open>The list \<open>run_scan\<close> hands to \<open>upsert_jobs\<close>, from the flattened results of the parsers.\<close>

definition scan_unique :: "netloc_fn \<Rightarrow> JobPosting list \<Rightarrow> JobPosting list" where
  "scan_unique netloc flat = dedupe netloc (filter_loop netloc flat [])"

text \<open>
  \<open>run_scan\<close> after the parsers have returned: \<open>flat\<close> is the flattened list of their
  postings, \<open>tbl\<close> the table as \<open>ensure_db\<close> leaves it. The result is the pair the function
  returns and the table afterwards.
\<close>

definition run_scan ::
  "(JobPosting \<Rightarrow> bool) \<Rightarrow> netloc_fn \<Rightarrow> JobPosting list \<Rightarrow> jobs_table
     \<Rightarrow> (nat \<times> nat) \<times> jobs_table" where
  "run_scan raises netloc flat tbl =
     (let unique = scan_unique netloc flat
      in (case upsert_jobs raises netloc unique tbl of
            (inserted, tbl') \<Rightarrow> ((length unique, inserted), tbl')))"

section \<open>Fetching\<close>

record response =
  status_code :: int
  resp_text :: string

datatype 'a outcome = Returned 'a | Raised error

text \<open>
  \<open>_host_last_hit\<close> and the reading of \<open>time.time()\<close>. \<open>client_get u t\<close> is the request sent at
  time \<open>t\<close>: what \<open>client.get\<close> gives (\<open>Inl\<close> when it raises) and the time when it is over.
  The sleep is taken to last exactly \<open>wait\<close>.
\<close>

record fetch_state =
  host_last_hit :: "string \<rightharpoonup> real"
  now :: real

type_synonym client_fn = "string \<Rightarrow> real \<Rightarrow> (error + response) \<times> real"

definition polite_get ::
  "netloc_fn \<Rightarrow> client_fn \<Rightarrow> fetch_state \<Rightarrow> string \<Rightarrow> response option outcome \<times> fetch_state" where
  "polite_get netloc client_get st u =
     (case netloc u of
        Inl e \<Rightarrow> (Raised e, st)
      | Inr host \<Rightarrow>
          (let last = (case host_last_hit st host of None \<Rightarrow> 0 | Some t \<Rightarrow> t);
               wait = max 0 (RATE_LIMIT_PER_HOST - (now st - last));
               st1 = (if 0 < wait then st\<lparr>now := now st + wait\<rparr> else st)
           in (case client_get u (now st1) of
                 (Inl e, t') \<Rightarrow> (Returned None, st1\<lparr>now := t'\<rparr>)
               | (Inr r, t') \<Rightarrow>
                   (if status_code r = 200 then Returned (Some r) else Returned None,
                    st1\<lparr>host_last_hit := (host_last_hit st1)(host \<mapsto> t'), now := t'\<rparr>))))"

section \<open>Parsers\<close>















section \<open>Facts about strings\<close>

lemma lower_append: "lower (a @ b) = lower a @ lower b"
  by (simp add: lower_def)


lemma startswith_prefix: "startswith s k \<longleftrightarrow> prefix k s"
  by (induction s k rule: startswith.induct) auto

lemma contains_sublist: "contains k s \<longleftrightarrow> sublist k s"
  by (induction s) (auto simp: startswith_prefix sublist_Cons_right)

lemma contains_extend:
  assumes "contains k s"
  shows "contains k (a @ s @ b)"
proof -
  from assms obtain ps ss where "s = ps @ k @ ss"
    by (auto simp: contains_sublist sublist_def)
  then have "a @ s @ b = (a @ ps) @ k @ (ss @ b)"
    by simp
  then show ?thesis
    unfolding contains_sublist sublist_def by blast
qed

lemma filter_length_mono:
  assumes "\<And>x. x \<in> set xs \<Longrightarrow> P x \<Longrightarrow> Q x"
  shows "length (filter P xs) \<le> length (filter Q xs)"
  using assms by (induction xs) auto

lemma filter_length_strict:
  assumes "\<And>x. x \<in> set xs \<Longrightarrow> P x \<Longrightarrow> Q x"
    and "b \<in> set xs" and "Q b" and "\<not> P b"
  shows "length (filter P xs) < length (filter Q xs)"
  using assms
proof (induction xs)
  case Nil
  then show ?case by simp
next
  case (Cons x xs)
  have mono: "length (filter P xs) \<le> length (filter Q xs)"
    by (rule filter_length_mono) (simp add: Cons.prems(1))
  show ?case
  proof (cases "x = b")
    case True
    with Cons.prems(3,4) mono show ?thesis by simp
  next
    case False
    with Cons.prems(2) have "b \<in> set xs" by simp
    then have "length (filter P xs) < length (filter Q xs)"
      by (intro Cons.IH) (simp_all add: Cons.prems)
    moreover have "P x \<Longrightarrow> Q x"
      by (rule Cons.prems(1)) simp_all
    ultimately show ?thesis by auto
  qed
qed

section \<open>Facts about the score\<close>

lemma keyword_loop_count:
  "keyword_loop ks t s = s + 20 * int (length (filter (\<lambda>k. contains (lower k) t) ks))"
  by (induction ks arbitrary: s) auto

lemma bonus_loop_count:
  "bonus_loop bs t s = s + 5 * int (length (filter (\<lambda>b. contains b t) bs))"
  by (induction bs arbitrary: s) auto

lemma raw_score_count:
  "raw_score job =
     20 * int (length (filter (\<lambda>k. contains (lower k) (lower (title job))) ROLE_KEYWORDS))
     + 5 * int (length (filter (\<lambda>b. contains b (lower (title job))) BONUS_TERMS))
     + (if source job = ''greenhouse'' \<or> source job = ''lever'' then 5 else 0)"
  by (simp add: raw_score_def Let_def keyword_loop_count bonus_loop_count)

lemma raw_score_nonneg: "0 \<le> raw_score job"
  by (simp add: raw_score_count)

lemma raw_score_times_5: "\<exists>k. raw_score job = 5 * int k"
proof -
  define a where "a = length (filter (\<lambda>k. contains (lower k) (lower (title job))) ROLE_KEYWORDS)"
  define b where "b = length (filter (\<lambda>b. contains b (lower (title job))) BONUS_TERMS)"
  define c :: nat where "c = (if source job = ''greenhouse'' \<or> source job = ''lever'' then 1 else 0)"
  have "raw_score job = 5 * int (4 * a + b + c)"
    by (simp add: raw_score_count a_def b_def c_def)
  then show ?thesis ..
qed

section \<open>The default of the capture time\<close>

text \<open>
  C1. A posting built without a capture time does not get the time of its construction:
  the module loaded at 2024-01-01T00:00:00 gives that same \<open>captured_at\<close> to a posting built
  on 5 March and to one built on 6 March.
\<close>

theorem captured_at_is_load_time:
  "captured_at (JobPosting_init (load_module ''2024-01-01T00:00:00'') ''2024-03-05T10:00:00''
      ''Sales Operations Lead'' ''acme'' ''Remote'' ''https://jobs.example/1'' ''generic''
      None None) = ''2024-01-01T00:00:00''
   \<and> captured_at (JobPosting_init (load_module ''2024-01-01T00:00:00'') ''2024-03-06T11:30:00''
      ''Sales Enablement Manager'' ''acme'' ''Remote'' ''https://jobs.example/2'' ''generic''
      None None) = ''2024-01-01T00:00:00''"
  by (simp add: JobPosting_init_def load_module_def)

lemma captured_at_ignores_clock:
  "captured_at (JobPosting_init m clock1 t1 c1 l1 u1 s1 p1 None)
     = captured_at (JobPosting_init m clock2 t2 c2 l2 u2 s2 p2 None)"
  by (simp add: JobPosting_init_def)

section \<open>The range of the score\<close>

text \<open>
  C3. The score of every posting lies between 0 and 100, and a sum above 100 gives
  exactly 100.
\<close>

theorem heuristic_score_range:
  "0 \<le> heuristic_score job \<and> heuristic_score job \<le> 100
   \<and> (100 < raw_score job \<longrightarrow> heuristic_score job = 100)"
  using raw_score_nonneg [of job] by (simp add: heuristic_score_def)

theorem heuristic_score_range_witness:
  "100 < raw_score (JobPosting_init (load_module ''2024-01-01T00:00:00'') ''2024-03-05T10:00:00''
      ''Senior Sales Strategy, Global Sales Operations, RevOps'' ''acme'' ''Remote''
      ''https://jobs.lever.co/acme/1'' ''lever'' None None)
   \<and> heuristic_score (JobPosting_init (load_module ''2024-01-01T00:00:00'')
      ''2024-03-05T10:00:00''
      ''Senior Sales Strategy, Global Sales Operations, RevOps'' ''acme'' ''Remote''
      ''https://jobs.lever.co/acme/1'' ''lever'' None None) = 100"
proof -
  let ?j = "JobPosting_init (load_module ''2024-01-01T00:00:00'') ''2024-03-05T10:00:00''
      ''Senior Sales Strategy, Global Sales Operations, RevOps'' ''acme'' ''Remote''
      ''https://jobs.lever.co/acme/1'' ''lever'' None None"
  have r: "raw_score ?j = 115"
    by code_simp
  then have "100 < raw_score ?j"
    by simp
  with heuristic_score_range [of ?j] show ?thesis
    by simp
qed

text \<open>
  C10. The score of every posting is one of 0, 5, 10, ..., 100, and the sum before the
  cap is a multiple of 5 as well.
\<close>

theorem heuristic_score_multiple_of_5:
  "5 dvd raw_score job \<and> (\<exists>n. n \<le> 20 \<and> heuristic_score job = 5 * int n)"
proof -
  obtain k where k: "raw_score job = 5 * int k"
    using raw_score_times_5 by blast
  have "\<exists>n. n \<le> 20 \<and> heuristic_score job = 5 * int n"
  proof (cases "k \<le> 20")
    case True
    then have "heuristic_score job = 5 * int k"
      by (simp add: heuristic_score_def k)
    with True show ?thesis by blast
  next
    case False
    then have "heuristic_score job = 5 * int 20"
      by (simp add: heuristic_score_def k)
    then show ?thesis by blast
  qed
  with k show ?thesis by simp
qed

theorem heuristic_score_multiple_of_5_witness:
  "5 dvd raw_score (JobPosting_init (load_module ''2024-01-01T00:00:00'') ''2024-03-05T10:00:00''
      ''Sales Strategy Manager'' ''acme'' ''Remote'' ''https://jobs.lever.co/acme/1'' ''lever''
      None None)
   \<and> (\<exists>n. n \<le> 20
        \<and> heuristic_score (JobPosting_init (load_module ''2024-01-01T00:00:00'')
            ''2024-03-05T10:00:00'' ''Sales Strategy Manager'' ''acme'' ''Remote''
            ''https://jobs.lever.co/acme/1'' ''lever'' None None) = 5 * int n)"
  by (rule heuristic_score_multiple_of_5)

section \<open>Bonus terms and the score\<close>

lemma raw_score_grows:
  assumes "b \<in> set BONUS_TERMS"
    and "\<not> contains b (lower (title job))"
    and "contains b (lower (pre @ title job @ post))"
  shows "raw_score job + 5 \<le> raw_score (job\<lparr>title := pre @ title job @ post\<rparr>)"
proof -
  let ?t = "lower (title job)"
  let ?t' = "lower (pre @ title job @ post)"
  have ext: "contains k ?t' " if "contains k ?t" for k
    using that by (simp add: lower_append contains_extend)
  have kw: "length (filter (\<lambda>k. contains (lower k) ?t) ROLE_KEYWORDS)
      \<le> length (filter (\<lambda>k. contains (lower k) ?t') ROLE_KEYWORDS)"
    by (rule filter_length_mono) (rule ext)
  have bn: "length (filter (\<lambda>b. contains b ?t) BONUS_TERMS)
      < length (filter (\<lambda>b. contains b ?t') BONUS_TERMS)"
    by (rule filter_length_strict [where b = b]) (use assms ext in auto)
  from kw bn show ?thesis
    by (simp add: raw_score_count)
qed

text \<open>
  C4, as the code has it. When a title is extended at its ends (\<open>pre @ title @ post\<close>) so that
  it contains a bonus term it did not contain before, the score grows strictly while it is below
  100, and stays 100 when it is 100.
\<close>

theorem bonus_term_raises_score:
  assumes "b \<in> set BONUS_TERMS"
    and "\<not> contains b (lower (title job))"
    and "contains b (lower (pre @ title job @ post))"
  shows "(heuristic_score job < 100 \<longrightarrow>
            heuristic_score job < heuristic_score (job\<lparr>title := pre @ title job @ post\<rparr>))
       \<and> (heuristic_score job = 100 \<longrightarrow>
            heuristic_score (job\<lparr>title := pre @ title job @ post\<rparr>) = 100)"
  using raw_score_grows [OF assms] by (auto simp: heuristic_score_def)

theorem bonus_term_raises_score_witness:
  "heuristic_score (JobPosting_init (load_module ''2024-01-01T00:00:00'') ''2024-03-05T10:00:00''
      ''Sales Operations Lead'' ''acme'' ''Remote'' ''https://jobs.example/1'' ''generic''
      None None)
   < heuristic_score (JobPosting_init (load_module ''2024-01-01T00:00:00'') ''2024-03-05T10:00:00''
      ''Sales Operations Lead, GTM'' ''acme'' ''Remote'' ''https://jobs.example/1'' ''generic''
      None None)
   \<and> heuristic_score (JobPosting_init (load_module ''2024-01-01T00:00:00'')
      ''2024-03-05T10:00:00''
      ''Senior Sales Strategy, Global Sales Operations, RevOps, GTM'' ''acme'' ''Remote''
      ''https://jobs.lever.co/acme/1'' ''lever'' None None) = 100"
proof -
  let ?m = "load_module ''2024-01-01T00:00:00''"
  let ?a = "JobPosting_init ?m ''2024-03-05T10:00:00''
      ''Sales Operations Lead'' ''acme'' ''Remote'' ''https://jobs.example/1'' ''generic''
      None None"
  let ?c = "JobPosting_init ?m ''2024-03-05T10:00:00''
      ''Senior Sales Strategy, Global Sales Operations, RevOps'' ''acme'' ''Remote''
      ''https://jobs.lever.co/acme/1'' ''lever'' None None"
  have b: "''gtm'' \<in> set BONUS_TERMS"
    by (simp add: BONUS_TERMS_def)
  have a1: "\<not> contains ''gtm'' (lower (title ?a))"
    by code_simp
  have a2: "contains ''gtm'' (lower ([] @ title ?a @ '', GTM''))"
    by code_simp
  have a3: "heuristic_score ?a < 100"
    by code_simp
  have c1: "\<not> contains ''gtm'' (lower (title ?c))"
    by code_simp
  have c2: "contains ''gtm'' (lower ([] @ title ?c @ '', GTM''))"
    by code_simp
  have c3: "heuristic_score ?c = 100"
    by code_simp
  have ta: "?a\<lparr>title := [] @ title ?a @ '', GTM''\<rparr>
      = JobPosting_init ?m ''2024-03-05T10:00:00''
          ''Sales Operations Lead, GTM'' ''acme'' ''Remote'' ''https://jobs.example/1''
          ''generic'' None None"
    by (simp add: JobPosting_init_def)
  have tc: "?c\<lparr>title := [] @ title ?c @ '', GTM''\<rparr>
      = JobPosting_init ?m ''2024-03-05T10:00:00''
          ''Senior Sales Strategy, Global Sales Operations, RevOps, GTM'' ''acme'' ''Remote''
          ''https://jobs.lever.co/acme/1'' ''lever'' None None"
    by (simp add: JobPosting_init_def)
  from bonus_term_raises_score [OF b a1 a2] a3
  have "heuristic_score ?a < heuristic_score (?a\<lparr>title := [] @ title ?a @ '', GTM''\<rparr>)"
    by blast
  moreover from bonus_term_raises_score [OF b c1 c2] c3
  have "heuristic_score (?c\<lparr>title := [] @ title ?c @ '', GTM''\<rparr>) = 100"
    by blast
  ultimately show ?thesis
    by (simp only: ta tc)
qed

text \<open>
  C4 as stated fails. A second occurrence of a bonus term adds nothing (\<open>strategy\<close> scores
  5 with one occurrence and with two), and an occurrence put inside the title can break a
  keyword (\<open>Sales gtm Operations\<close> scores 5, \<open>Sales Operations\<close> scores 20).
\<close>

theorem bonus_term_counterexample:
  "heuristic_score (JobPosting_init (load_module ''2024-01-01T00:00:00'') ''2024-03-05T10:00:00''
      ''strategy'' ''acme'' ''Remote'' ''https://jobs.example/1'' ''generic'' None None) = 5
   \<and> heuristic_score (JobPosting_init (load_module ''2024-01-01T00:00:00'')
      ''2024-03-05T10:00:00''
      ''strategy strategy'' ''acme'' ''Remote'' ''https://jobs.example/1'' ''generic''
      None None) = 5
   \<and> heuristic_score (JobPosting_init (load_module ''2024-01-01T00:00:00'')
      ''2024-03-05T10:00:00''
      ''Sales Operations'' ''acme'' ''Remote'' ''https://jobs.example/1'' ''generic''
      None None) = 20
   \<and> heuristic_score (JobPosting_init (load_module ''2024-01-01T00:00:00'')
      ''2024-03-05T10:00:00''
      ''Sales gtm Operations'' ''acme'' ''Remote'' ''https://jobs.example/1'' ''generic''
      None None) = 5"
  by code_simp

section \<open>Facts about deduplication\<close>

lemma dedupe_loop_acc:
  "dedupe_loop netloc ps seen unique = unique @ dedupe_loop netloc ps seen []"
proof (induction ps arbitrary: seen unique)
  case Nil
  show ?case by simp
next
  case (Cons p ps)
  show ?case
  proof (cases "dedupe_key netloc p \<in> seen")
    case True
    then show ?thesis
      using Cons.IH [of seen unique] by simp
  next
    case False
    have "dedupe_loop netloc (p # ps) seen unique
        = dedupe_loop netloc ps (insert (dedupe_key netloc p) seen) (unique @ [p])"
      using False by simp
    also have "\<dots> = (unique @ [p]) @ dedupe_loop netloc ps (insert (dedupe_key netloc p) seen) []"
      by (rule Cons.IH)
    also have "\<dots> = unique @ dedupe_loop netloc ps (insert (dedupe_key netloc p) seen) [p]"
      using Cons.IH [of "insert (dedupe_key netloc p) seen" "[p]"] by simp
    also have "\<dots> = unique @ dedupe_loop netloc (p # ps) seen []"
      using False by simp
    finally show ?thesis .
  qed
qed

lemma dedupe_loop_Cons:
  "dedupe_loop netloc (p # ps) seen [] =
     (if dedupe_key netloc p \<in> seen then dedupe_loop netloc ps seen []
      else p # dedupe_loop netloc ps (insert (dedupe_key netloc p) seen) [])"
  using dedupe_loop_acc [of netloc ps "insert (dedupe_key netloc p) seen" "[p]"] by simp

lemma dedupe_loop_subseq: "subseq (dedupe_loop netloc ps seen []) ps"
proof (induction ps arbitrary: seen)
  case Nil
  show ?case by simp
next
  case (Cons p ps)
  show ?case
    using Cons.IH by (simp only: dedupe_loop_Cons split: if_split) auto
qed

lemma dedupe_loop_keys:
  "dedupe_key netloc ` set (dedupe_loop netloc ps seen []) = dedupe_key netloc ` set ps - seen"
proof (induction ps arbitrary: seen)
  case Nil
  show ?case by simp
next
  case (Cons p ps)
  show ?case
    by (simp only: dedupe_loop_Cons split: if_split) (auto simp: Cons.IH)
qed

lemma dedupe_loop_distinct:
  "distinct (map (dedupe_key netloc) (dedupe_loop netloc ps seen []))"
proof (induction ps arbitrary: seen)
  case Nil
  show ?case by simp
next
  case (Cons p ps)
  show ?case
    by (simp only: dedupe_loop_Cons split: if_split) (auto simp: Cons.IH dedupe_loop_keys)
qed

lemma dedupe_loop_append:
  "dedupe_loop netloc (xs @ ys) seen [] =
     dedupe_loop netloc xs seen []
       @ dedupe_loop netloc ys (seen \<union> dedupe_key netloc ` set xs) []"
proof (induction xs arbitrary: seen)
  case Nil
  show ?case by simp
next
  case (Cons x xs)
  have eq: "insert (dedupe_key netloc x) (seen \<union> dedupe_key netloc ` set xs)
      = insert (dedupe_key netloc x) seen \<union> dedupe_key netloc ` set xs"
    by simp
  have mem: "dedupe_key netloc x \<in> seen
      \<Longrightarrow> insert (dedupe_key netloc x) (seen \<union> dedupe_key netloc ` set xs)
        = seen \<union> dedupe_key netloc ` set xs"
    by auto
  show ?case
    by (simp add: dedupe_loop_Cons Cons.IH del: dedupe_loop.simps) (simp add: mem)
qed

lemma one_per_key:
  assumes "distinct (map f xs)" and "k \<in> f ` set xs"
  shows "length (filter (\<lambda>q. f q = k) xs) = 1"
  using assms
proof (induction xs)
  case Nil
  then show ?case by simp
next
  case (Cons x xs)
  show ?case
  proof (cases "f x = k")
    case True
    with Cons.prems(1) have "k \<notin> f ` set xs"
      by simp
    then have "\<forall>q\<in>set xs. f q \<noteq> k"
      by blast
    then have "filter (\<lambda>q. f q = k) xs = []"
      by (simp add: filter_empty_conv)
    with True show ?thesis by simp
  next
    case False
    with Cons.prems have "k \<in> f ` set xs" and "distinct (map f xs)"
      by auto
    with Cons.IH False show ?thesis by simp
  qed
qed

text \<open>
  C2, as the code has it. The key of a posting is its title, its company or, when the company
  is empty, the company derived from its URL, and its location, all in lower case. The output
  is a subsequence of the input; every posting of the input has exactly one posting of the
  output with its key; a posting is kept exactly when no earlier posting has its key. With a
  company that is not empty the key does not depend on the URL or the source.
\<close>

theorem dedupe_first_per_key:
  "subseq (dedupe netloc ps) ps
   \<and> (\<forall>p\<in>set ps.
        length (filter (\<lambda>q. dedupe_key netloc q = dedupe_key netloc p) (dedupe netloc ps)) = 1)
   \<and> dedupe netloc (xs @ [x]) =
        dedupe netloc xs
          @ (if dedupe_key netloc x \<in> dedupe_key netloc ` set xs then [] else [x])
   \<and> (company x \<noteq> [] \<longrightarrow>
        dedupe_key netloc x = (lower (title x), lower (company x), lower (location x)))"
proof -
  have a: "subseq (dedupe netloc ps) ps"
    by (simp add: dedupe_def dedupe_loop_subseq)
  have b: "length (filter (\<lambda>q. dedupe_key netloc q = dedupe_key netloc p) (dedupe netloc ps)) = 1"
    if "p \<in> set ps" for p
  proof (rule one_per_key)
    show "distinct (map (dedupe_key netloc) (dedupe netloc ps))"
      by (simp add: dedupe_def dedupe_loop_distinct)
    show "dedupe_key netloc p \<in> dedupe_key netloc ` set (dedupe netloc ps)"
      using that by (simp add: dedupe_def dedupe_loop_keys)
  qed
  have c: "dedupe netloc (xs @ [x]) =
        dedupe netloc xs
          @ (if dedupe_key netloc x \<in> dedupe_key netloc ` set xs then [] else [x])"
    by (simp add: dedupe_def dedupe_loop_append [of netloc xs "[x]"])
  have d: "company x \<noteq> [] \<longrightarrow>
        dedupe_key netloc x = (lower (title x), lower (company x), lower (location x))"
    by (simp add: dedupe_key_def company_or_url_def)
  from a b c d show ?thesis
    by blast
qed

theorem dedupe_first_per_key_witness:
  "map source (dedupe urlsplit_netloc
      [JobPosting_init (load_module ''2024-01-01T00:00:00'') ''2024-03-05T10:00:00''
         ''Sales Operations Lead'' ''Acme'' ''Remote'' ''https://boards.greenhouse.io/acme/jobs/1''
         ''greenhouse'' None None,
       JobPosting_init (load_module ''2024-01-01T00:00:00'') ''2024-03-05T10:00:00''
         ''SALES OPERATIONS LEAD'' ''ACME'' ''remote'' ''https://jobs.lever.co/acme/77''
         ''lever'' None None]) = [''greenhouse'']"
proof -
  let ?m = "load_module ''2024-01-01T00:00:00''"
  let ?a = "JobPosting_init ?m ''2024-03-05T10:00:00''
         ''Sales Operations Lead'' ''Acme'' ''Remote'' ''https://boards.greenhouse.io/acme/jobs/1''
         ''greenhouse'' None None"
  let ?b = "JobPosting_init ?m ''2024-03-05T10:00:00''
         ''SALES OPERATIONS LEAD'' ''ACME'' ''remote'' ''https://jobs.lever.co/acme/77''
         ''lever'' None None"
  have ca: "company ?a \<noteq> []" and cb: "company ?b \<noteq> []"
    by (simp_all add: JobPosting_init_def)
  have ka: "dedupe_key urlsplit_netloc ?a
      = (lower (title ?a), lower (company ?a), lower (location ?a))"
    using dedupe_first_per_key [of urlsplit_netloc "[]" "[]" ?a] ca by blast
  have kb: "dedupe_key urlsplit_netloc ?b
      = (lower (title ?b), lower (company ?b), lower (location ?b))"
    using dedupe_first_per_key [of urlsplit_netloc "[]" "[]" ?b] cb by blast
  have same: "dedupe_key urlsplit_netloc ?b = dedupe_key urlsplit_netloc ?a"
    unfolding ka kb by code_simp
  have "dedupe urlsplit_netloc ([?a] @ [?b])
      = dedupe urlsplit_netloc [?a]
          @ (if dedupe_key urlsplit_netloc ?b \<in> dedupe_key urlsplit_netloc ` set [?a]
             then [] else [?b])"
    using dedupe_first_per_key [of urlsplit_netloc "[]" "[?a]" ?b] by blast
  then have "dedupe urlsplit_netloc [?a, ?b] = dedupe urlsplit_netloc [?a]"
    using same by simp
  also have "\<dots> = [?a]"
    by (simp add: dedupe_def)
  finally show ?thesis
    by (simp add: JobPosting_init_def)
qed

text \<open>
  C2 as stated fails. Two postings with the same title, the same (empty) company and the
  same location, whose URLs are boards of two companies, have two keys: both are kept.
\<close>

theorem dedupe_counterexample:
  "map url (dedupe urlsplit_netloc
      [JobPosting_init (load_module ''2024-01-01T00:00:00'') ''2024-03-05T10:00:00''
         ''Sales Operations Lead'' [] ''Remote'' ''https://boards.greenhouse.io/acme/jobs/1''
         ''greenhouse'' None None,
       JobPosting_init (load_module ''2024-01-01T00:00:00'') ''2024-03-05T10:00:00''
         ''Sales Operations Lead'' [] ''Remote'' ''https://boards.greenhouse.io/globex/jobs/1''
         ''greenhouse'' None None])
   = [''https://boards.greenhouse.io/acme/jobs/1'', ''https://boards.greenhouse.io/globex/jobs/1'']"
  by code_simp

section \<open>Facts about persistence\<close>

lemma upsert_loop_prefix: "prefix tbl (snd (upsert_loop raises netloc ps tbl n))"
proof (induction ps arbitrary: tbl n)
  case Nil
  show ?case by simp
next
  case (Cons p ps)
  have "prefix tbl (snd (upsert_loop raises netloc ps (tbl @ [r]) k))" for r k
    using Cons.IH [of "tbl @ [r]" k] by (meson append_prefixD)
  with Cons.IH show ?case
    by (simp add: insert_or_ignore_def)
qed

lemma upsert_loop_step:
  "upsert_loop raises netloc (p # ps) tbl n =
     (if raises p \<or> url p \<in> url ` set tbl
      then upsert_loop raises netloc ps tbl n
      else upsert_loop raises netloc ps (tbl @ [p\<lparr>company := company_or_url netloc p\<rparr>]) (n + 1))"
  by (simp add: insert_or_ignore_def)

lemma upsert_loop_urls_kept:
  "url ` set tbl \<subseteq> url ` set (snd (upsert_loop raises netloc ps tbl n))"
  using upsert_loop_prefix [of tbl raises netloc ps n] by (intro image_mono set_mono_prefix)

lemma upsert_loop_present:
  "p \<in> set ps \<Longrightarrow> \<not> raises p
     \<Longrightarrow> url p \<in> url ` set (snd (upsert_loop raises netloc ps tbl n))"
proof (induction ps arbitrary: tbl n)
  case Nil
  then show ?case by simp
next
  case (Cons q ps)
  let ?q' = "q\<lparr>company := company_or_url netloc q\<rparr>"
  show ?case
  proof (cases "raises q \<or> url q \<in> url ` set tbl")
    case skip: True
    have step: "upsert_loop raises netloc (q # ps) tbl n = upsert_loop raises netloc ps tbl n"
      using skip by (simp only: upsert_loop_step if_True)
    show ?thesis
    proof (cases "p = q")
      case True
      with Cons.prems(2) skip have "url p \<in> url ` set tbl"
        by simp
      then show ?thesis
        unfolding step using upsert_loop_urls_kept [of tbl raises netloc ps n] by blast
    next
      case False
      with Cons.prems(1) have "p \<in> set ps"
        by simp
      from Cons.IH [OF this Cons.prems(2)] show ?thesis
        unfolding step .
    qed
  next
    case ins: False
    have step: "upsert_loop raises netloc (q # ps) tbl n
        = upsert_loop raises netloc ps (tbl @ [?q']) (n + 1)"
      using ins by (simp only: upsert_loop_step if_False)
    show ?thesis
    proof (cases "p = q")
      case True
      then have "url p \<in> url ` set (tbl @ [?q'])"
        by simp
      then show ?thesis
        unfolding step
        using upsert_loop_urls_kept [of "tbl @ [?q']" raises netloc ps "n + 1"] by blast
    next
      case False
      with Cons.prems(1) have "p \<in> set ps"
        by simp
      from Cons.IH [OF this Cons.prems(2)] show ?thesis
        unfolding step .
    qed
  qed
qed

lemma upsert_loop_distinct:
  "distinct (map url tbl) \<Longrightarrow> distinct (map url (snd (upsert_loop raises netloc ps tbl n)))"
  by (induction ps arbitrary: tbl n) (auto simp: insert_or_ignore_def)

lemma upsert_loop_noop:
  "\<forall>p\<in>set ps. \<not> raises p \<longrightarrow> url p \<in> url ` set tbl
     \<Longrightarrow> upsert_loop raises netloc ps tbl n = (n, tbl)"
  by (induction ps arbitrary: n) (auto simp: insert_or_ignore_def)

lemma upsert_loop_count:
  "fst (upsert_loop raises netloc ps tbl n) + length tbl
     = n + length (snd (upsert_loop raises netloc ps tbl n))"
proof (induction ps arbitrary: tbl n)
  case Nil
  show ?case by simp
next
  case (Cons q ps)
  let ?q' = "q\<lparr>company := company_or_url netloc q\<rparr>"
  show ?case
  proof (cases "raises q \<or> url q \<in> url ` set tbl")
    case skip: True
    have step: "upsert_loop raises netloc (q # ps) tbl n = upsert_loop raises netloc ps tbl n"
      using skip by (simp only: upsert_loop_step if_True)
    show ?thesis
      unfolding step by (rule Cons.IH)
  next
    case ins: False
    have step: "upsert_loop raises netloc (q # ps) tbl n
        = upsert_loop raises netloc ps (tbl @ [?q']) (n + 1)"
      using ins by (simp only: upsert_loop_step if_False)
    show ?thesis
      unfolding step using Cons.IH [of "tbl @ [?q']" "n + 1"] by simp
  qed
qed

lemma upsert_loop_rows:
  "r \<in> set (snd (upsert_loop raises netloc ps tbl n))
     \<Longrightarrow> r \<in> set tbl \<or> (\<exists>p\<in>set ps. r = p\<lparr>company := company_or_url netloc p\<rparr>)"
proof (induction ps arbitrary: tbl n)
  case Nil
  then show ?case by simp
next
  case (Cons q ps)
  let ?q' = "q\<lparr>company := company_or_url netloc q\<rparr>"
  show ?case
  proof (cases "raises q \<or> url q \<in> url ` set tbl")
    case skip: True
    have step: "upsert_loop raises netloc (q # ps) tbl n = upsert_loop raises netloc ps tbl n"
      using skip by (simp only: upsert_loop_step if_True)
    from Cons.prems have "r \<in> set (snd (upsert_loop raises netloc ps tbl n))"
      unfolding step .
    from Cons.IH [OF this] show ?thesis
      by auto
  next
    case ins: False
    have step: "upsert_loop raises netloc (q # ps) tbl n
        = upsert_loop raises netloc ps (tbl @ [?q']) (n + 1)"
      using ins by (simp only: upsert_loop_step if_False)
    from Cons.prems have "r \<in> set (snd (upsert_loop raises netloc ps (tbl @ [?q']) (n + 1)))"
      unfolding step .
    from Cons.IH [OF this] show ?thesis
      by auto
  qed
qed

text \<open>
  C6. Whatever the table and the list: a second run of \<open>upsert_jobs\<close> with the same list
  inserts nothing and leaves the table as the first run left it; the rows that were in the
  table stay, unchanged and in place, at its front; the count returned is the number of rows
  added; the URLs stay pairwise different; and an insert of a URL that is present changes
  nothing and raises nothing.
\<close>

theorem upsert_jobs_idempotent:
  "upsert_jobs raises netloc ps (snd (upsert_jobs raises netloc ps tbl))
     = (0, snd (upsert_jobs raises netloc ps tbl))
   \<and> prefix tbl (snd (upsert_jobs raises netloc ps tbl))
   \<and> length (snd (upsert_jobs raises netloc ps tbl))
       = length tbl + fst (upsert_jobs raises netloc ps tbl)
   \<and> (distinct (map url tbl) \<longrightarrow> distinct (map url (snd (upsert_jobs raises netloc ps tbl))))
   \<and> (url p \<in> url ` set tbl \<longrightarrow> insert_or_ignore p tbl = (0, tbl))"
proof -
  let ?tbl1 = "snd (upsert_jobs raises netloc ps tbl)"
  have "\<forall>p\<in>set ps. \<not> raises p \<longrightarrow> url p \<in> url ` set ?tbl1"
    by (simp add: upsert_jobs_def upsert_loop_present)
  then have a: "upsert_jobs raises netloc ps ?tbl1 = (0, ?tbl1)"
    unfolding upsert_jobs_def [of raises netloc ps ?tbl1] by (rule upsert_loop_noop)
  have b: "prefix tbl ?tbl1"
    by (simp add: upsert_jobs_def upsert_loop_prefix)
  have c: "length ?tbl1 = length tbl + fst (upsert_jobs raises netloc ps tbl)"
    using upsert_loop_count [of raises netloc ps tbl 0] by (simp add: upsert_jobs_def)
  have d: "distinct (map url tbl) \<longrightarrow> distinct (map url ?tbl1)"
    by (simp add: upsert_jobs_def upsert_loop_distinct)
  have e: "url p \<in> url ` set tbl \<longrightarrow> insert_or_ignore p tbl = (0, tbl)"
    by (simp add: insert_or_ignore_def)
  from a b c d e show ?thesis
    by blast
qed

theorem upsert_jobs_idempotent_witness:
  "distinct (map url
      [JobPosting_init (load_module ''2024-01-01T00:00:00'') ''2024-03-05T10:00:00''
         ''Sales Operations Lead'' ''acme'' ''Remote'' ''https://jobs.example/1'' ''generic''
         None None])
   \<and> insert_or_ignore
        (JobPosting_init (load_module ''2024-01-01T00:00:00'') ''2024-03-06T10:00:00''
           ''Sales Operations Lead (Berlin)'' ''acme'' ''Berlin'' ''https://jobs.example/1''
           ''generic'' None None)
        [JobPosting_init (load_module ''2024-01-01T00:00:00'') ''2024-03-05T10:00:00''
           ''Sales Operations Lead'' ''acme'' ''Remote'' ''https://jobs.example/1'' ''generic''
           None None]
      = (0, [JobPosting_init (load_module ''2024-01-01T00:00:00'') ''2024-03-05T10:00:00''
           ''Sales Operations Lead'' ''acme'' ''Remote'' ''https://jobs.example/1'' ''generic''
           None None])
   \<and> distinct (map url (snd (upsert_jobs (\<lambda>p. False) urlsplit_netloc
        [JobPosting_init (load_module ''2024-01-01T00:00:00'') ''2024-03-06T10:00:00''
           ''Sales Operations Lead (Berlin)'' ''acme'' ''Berlin'' ''https://jobs.example/1''
           ''generic'' None None,
         JobPosting_init (load_module ''2024-01-01T00:00:00'') ''2024-03-06T10:00:00''
           ''Sales Enablement Manager'' ''acme'' ''Remote'' ''https://jobs.example/2''
           ''generic'' None None]
        [JobPosting_init (load_module ''2024-01-01T00:00:00'') ''2024-03-05T10:00:00''
           ''Sales Operations Lead'' ''acme'' ''Remote'' ''https://jobs.example/1'' ''generic''
           None None])))"
proof -
  let ?m = "load_module ''2024-01-01T00:00:00''"
  let ?old = "JobPosting_init ?m ''2024-03-05T10:00:00''
         ''Sales Operations Lead'' ''acme'' ''Remote'' ''https://jobs.example/1'' ''generic''
         None None"
  let ?p1 = "JobPosting_init ?m ''2024-03-06T10:00:00''
           ''Sales Operations Lead (Berlin)'' ''acme'' ''Berlin'' ''https://jobs.example/1''
           ''generic'' None None"
  let ?p2 = "JobPosting_init ?m ''2024-03-06T10:00:00''
           ''Sales Enablement Manager'' ''acme'' ''Remote'' ''https://jobs.example/2''
           ''generic'' None None"
  have h1: "distinct (map url [?old])"
    by simp
  have h2: "url ?p1 \<in> url ` set [?old]"
    by (simp add: JobPosting_init_def)
  from upsert_jobs_idempotent [of "\<lambda>p. False" urlsplit_netloc "[?p1, ?p2]" "[?old]" ?p1] h1 h2
  show ?thesis
    by blast
qed

section \<open>Facts about the pipeline\<close>

lemma filter_loop_titles:
  "\<forall>q\<in>set filtered. matches_role (title q)
     \<Longrightarrow> \<forall>q\<in>set (filter_loop netloc ps filtered). matches_role (title q)"
proof (induction ps arbitrary: filtered)
  case Nil
  then show ?case by simp
next
  case (Cons p ps)
  let ?p1 = "p\<lparr>company := company_or_url netloc p\<rparr>"
  let ?p2 = "?p1\<lparr>match_score := heuristic_score ?p1\<rparr>"
  show ?case
  proof (cases "matches_role (title p)")
    case True
    then have step: "filter_loop netloc (p # ps) filtered
        = filter_loop netloc ps (filtered @ [?p2])"
      by (simp add: Let_def)
    have "\<forall>q\<in>set (filtered @ [?p2]). matches_role (title q)"
      using Cons.prems True by simp
    from Cons.IH [OF this] show ?thesis
      unfolding step .
  next
    case False
    then have step: "filter_loop netloc (p # ps) filtered = filter_loop netloc ps filtered"
      by simp
    from Cons.IH [OF Cons.prems] show ?thesis
      unfolding step .
  qed
qed

lemma dedupe_loop_subset: "set (dedupe_loop netloc ps seen []) \<subseteq> set ps"
proof (induction ps arbitrary: seen)
  case Nil
  show ?case by simp
next
  case (Cons p ps)
  show ?case
    using Cons.IH [of seen] Cons.IH [of "insert (dedupe_key netloc p) seen"]
    by (simp only: dedupe_loop_Cons split: if_split) auto
qed

lemma dedupe_subset: "set (dedupe netloc ps) \<subseteq> set ps"
  by (simp add: dedupe_def dedupe_loop_subset)

lemma scan_unique_titles: "q \<in> set (scan_unique netloc flat) \<Longrightarrow> matches_role (title q)"
  using filter_loop_titles [of "[]" netloc flat] dedupe_subset [of netloc "filter_loop netloc flat []"]
  by (auto simp: scan_unique_def)

text \<open>
  C5. Every posting that \<open>run_scan\<close> hands to \<open>upsert_jobs\<close> has a title that contains a role
  keyword; a title that contains none is the title of no posting handed over; and every row of
  the table after the run was in the table before or has such a title.
\<close>

theorem unmatched_title_never_persisted:
  "(\<forall>q\<in>set (scan_unique netloc flat). matches_role (title q))
   \<and> (\<not> matches_role t \<longrightarrow> t \<notin> title ` set (scan_unique netloc flat))
   \<and> (\<forall>r\<in>set (snd (run_scan raises netloc flat tbl)). r \<in> set tbl \<or> matches_role (title r))"
proof -
  have a: "\<forall>q\<in>set (scan_unique netloc flat). matches_role (title q)"
    by (simp add: scan_unique_titles)
  then have b: "\<not> matches_role t \<longrightarrow> t \<notin> title ` set (scan_unique netloc flat)"
    by auto
  have c: "r \<in> set tbl \<or> matches_role (title r)"
    if r: "r \<in> set (snd (run_scan raises netloc flat tbl))" for r
  proof -
    from r have "r \<in> set (snd (upsert_loop raises netloc (scan_unique netloc flat) tbl 0))"
      by (simp add: run_scan_def upsert_jobs_def Let_def split: prod.splits)
    from upsert_loop_rows [OF this] a show ?thesis
      by auto
  qed
  from a b c show ?thesis
    by blast
qed

theorem unmatched_title_never_persisted_witness:
  "\<not> matches_role ''Office Manager''
   \<and> ''Office Manager'' \<notin> title ` set (scan_unique urlsplit_netloc
       [JobPosting_init (load_module ''2024-01-01T00:00:00'') ''2024-03-05T10:00:00''
          ''Office Manager'' [] [] ''https://jobs.lever.co/acme/1'' ''lever-html'' None None,
        JobPosting_init (load_module ''2024-01-01T00:00:00'') ''2024-03-05T10:00:00''
          ''Head of Sales Enablement'' [] [] ''https://jobs.lever.co/acme/2'' ''lever-html''
          None None])
   \<and> map title (scan_unique urlsplit_netloc
       [JobPosting_init (load_module ''2024-01-01T00:00:00'') ''2024-03-05T10:00:00''
          ''Office Manager'' [] [] ''https://jobs.lever.co/acme/1'' ''lever-html'' None None,
        JobPosting_init (load_module ''2024-01-01T00:00:00'') ''2024-03-05T10:00:00''
          ''Head of Sales Enablement'' [] [] ''https://jobs.lever.co/acme/2'' ''lever-html''
          None None]) = [''Head of Sales Enablement'']"
proof -
  let ?m = "load_module ''2024-01-01T00:00:00''"
  let ?flat = "[JobPosting_init ?m ''2024-03-05T10:00:00''
          ''Office Manager'' [] [] ''https://jobs.lever.co/acme/1'' ''lever-html'' None None,
        JobPosting_init ?m ''2024-03-05T10:00:00''
          ''Head of Sales Enablement'' [] [] ''https://jobs.lever.co/acme/2'' ''lever-html''
          None None]"
  have n: "\<not> matches_role ''Office Manager''"
    by code_simp
  with unmatched_title_never_persisted [of urlsplit_netloc ?flat "''Office Manager''"]
  have a: "''Office Manager'' \<notin> title ` set (scan_unique urlsplit_netloc ?flat)"
    by blast
  have b: "map title (scan_unique urlsplit_netloc ?flat) = [''Head of Sales Enablement'']"
    by code_simp
  from n a b show ?thesis
    by blast
qed

section \<open>Facts about the parsers\<close>












section \<open>Facts about URLs\<close>










lemma split_on_nonempty: "split_on d s \<noteq> []"
  by (induction s) (auto split: list.splits)






section \<open>Facts about fetching\<close>

lemma polite_get_returns:
  assumes "netloc u = Inr host"
  shows "fst (polite_get netloc client_get st u) = Returned None
       \<or> (\<exists>r. fst (polite_get netloc client_get st u) = Returned (Some r) \<and> status_code r = 200)"
  using assms by (auto simp: polite_get_def Let_def split: prod.splits sum.splits)

lemma polite_get_sent:
  assumes "netloc u = Inr host"
  obtains t where "fst (polite_get netloc client_get st u) =
      (case fst (client_get u t) of
         Inl e \<Rightarrow> Returned None
       | Inr r \<Rightarrow> if status_code r = 200 then Returned (Some r) else Returned None)"
proof -
  let ?last = "case host_last_hit st host of None \<Rightarrow> 0 | Some t \<Rightarrow> t"
  let ?wait = "max 0 (RATE_LIMIT_PER_HOST - (now st - ?last))"
  show ?thesis
  proof (cases "now st - ?last < RATE_LIMIT_PER_HOST")
    case True
    have "fst (polite_get netloc client_get st u) =
      (case fst (client_get u (now st + ?wait)) of
         Inl e \<Rightarrow> Returned None
       | Inr r \<Rightarrow> if status_code r = 200 then Returned (Some r) else Returned None)"
    proof (cases "client_get u (now st + ?wait)")
      case (Pair res t')
      with assms True show ?thesis
        by (cases res) (simp_all add: polite_get_def Let_def)
    qed
    then show ?thesis
      by (rule that)
  next
    case False
    have "fst (polite_get netloc client_get st u) =
      (case fst (client_get u (now st)) of
         Inl e \<Rightarrow> Returned None
       | Inr r \<Rightarrow> if status_code r = 200 then Returned (Some r) else Returned None)"
    proof (cases "client_get u (now st)")
      case (Pair res t')
      with assms False show ?thesis
        by (cases res) (simp_all add: polite_get_def Let_def)
    qed
    then show ?thesis
      by (rule that)
  qed
qed

lemma polite_get_transport_failure:
  assumes "netloc u = Inr host" and "\<forall>t. fst (client_get u t) = Inl e"
  shows "fst (polite_get netloc client_get st u) = Returned None"
proof -
  obtain t where "fst (polite_get netloc client_get st u) =
      (case fst (client_get u t) of
         Inl e \<Rightarrow> Returned None
       | Inr r \<Rightarrow> if status_code r = 200 then Returned (Some r) else Returned None)"
    using assms(1) by (rule polite_get_sent)
  moreover have "fst (client_get u t) = Inl e"
    using assms(2) by blast
  ultimately show ?thesis
    by simp
qed

lemma polite_get_bad_status:
  assumes "netloc u = Inr host"
    and "\<forall>t. \<exists>r. fst (client_get u t) = Inr r \<and> status_code r \<noteq> 200"
  shows "fst (polite_get netloc client_get st u) = Returned None"
proof -
  obtain t where "fst (polite_get netloc client_get st u) =
      (case fst (client_get u t) of
         Inl e \<Rightarrow> Returned None
       | Inr r \<Rightarrow> if status_code r = 200 then Returned (Some r) else Returned None)"
    using assms(1) by (rule polite_get_sent)
  moreover obtain r where "fst (client_get u t) = Inr r" and "status_code r \<noteq> 200"
    using assms(2) by blast
  ultimately show ?thesis
    by simp
qed

lemma polite_get_propagates:
  assumes "netloc u = Inl e"
  shows "polite_get netloc client_get st u = (Raised e, st)"
  using assms by (simp add: polite_get_def)

text \<open>
  C9. On the URL \<open>http://[::1\<close> the call of \<open>urlparse\<close>, which stands before the \<open>try\<close>,
  raises \<open>ValueError\<close>, and \<open>polite_get\<close> passes it on to its caller, whatever the server
  would have answered.
\<close>

theorem polite_get_raises_on_bad_url:
  "fst (polite_get urlsplit_netloc
         (\<lambda>u t. (Inr \<lparr>status_code = 200, resp_text = ''<html></html>''\<rparr>, t + 1))
         \<lparr>host_last_hit = Map.empty, now = 0\<rparr>
         ''http://[::1'') = Raised ValueError"
proof -
  have "urlsplit_netloc ''http://[::1'' = Inl ValueError"
    by code_simp
  then show ?thesis
    by (simp add: polite_get_def)
qed

end
